theory Spec2Isabelle
  imports
    Main
    "HOL-Library.Multiset"
    "HOL-Library.Char_ord"
    "HOL-Library.List_Lexorder"
    "HOL-Library.Product_Lexorder"
begin

section \<open>Python values, errors and built-ins used by the notebooks\<close>

text \<open>
  The notebooks are Python 2.7 cells. Every exception that one of the modelled
  expressions can raise is a value of \<open>py_error\<close>; a computation that may raise
  returns \<open>py_error + 'a\<close>, with \<open>Inl\<close> for the exception.
\<close>

datatype py_error = ZeroDivisionError | ValueError | IndexError | KeyError | TypeError

text \<open>Floor division \<^verbatim>\<open>a // b\<close> on Python integers: it raises on a zero divisor.\<close>

definition floordiv :: "int \<Rightarrow> int \<Rightarrow> py_error + int" where
  "floordiv a b = (if b = 0 then Inl ZeroDivisionError else Inr (a div b))"

text \<open>\<^verbatim>\<open>range(n)\<close>: the integers from 0 up to \<open>n - 1\<close>; empty when \<open>n \<le> 0\<close>.\<close>

definition py_range :: "int \<Rightarrow> int list" where
  "py_range n = [0..n - 1]"

text \<open>
  A slice \<^verbatim>\<open>xs[lo:hi]\<close> with integer bounds: a negative bound counts from the end,
  and both bounds are clamped to the list, so a slice never raises.
\<close>

definition slice_index :: "nat \<Rightarrow> int \<Rightarrow> nat" where
  "slice_index n i = (if i < 0 then nat (max 0 (int n + i)) else min (nat i) n)"

definition py_slice :: "'a list \<Rightarrow> int \<Rightarrow> int \<Rightarrow> 'a list" where
  "py_slice xs lo hi =
     (let a = slice_index (length xs) lo; b = slice_index (length xs) hi
      in take (b - a) (drop a xs))"

section \<open>The batcher: \<open>split_list\<close>\<close>

text \<open>
  \<^verbatim>\<open>
  def split_list(alist, wanted_parts=1):
      length = len(alist)
      return [ alist[i*length // wanted_parts: (i+1)*length // wanted_parts]
               for i in range(wanted_parts) ]
  \<close>
  The comprehension is the recursion \<open>split_list_parts\<close> over the values of
  \<^verbatim>\<open>range(wanted_parts)\<close>; the lower bound of a slice is evaluated before the
  upper one, and the first exception ends the comprehension.
\<close>

fun split_list_parts :: "'a list \<Rightarrow> int \<Rightarrow> int list \<Rightarrow> py_error + 'a list list" where
  "split_list_parts alist wanted_parts [] = Inr []"
| "split_list_parts alist wanted_parts (i # is) =
     (case floordiv (i * int (length alist)) wanted_parts of
        Inl e \<Rightarrow> Inl e
      | Inr lo \<Rightarrow>
         (case floordiv ((i + 1) * int (length alist)) wanted_parts of
            Inl e \<Rightarrow> Inl e
          | Inr hi \<Rightarrow>
             (case split_list_parts alist wanted_parts is of
                Inl e \<Rightarrow> Inl e
              | Inr rest \<Rightarrow> Inr (py_slice alist lo hi # rest))))"

definition split_list :: "'a list \<Rightarrow> int \<Rightarrow> py_error + 'a list list" where
  "split_list alist wanted_parts = split_list_parts alist wanted_parts (py_range wanted_parts)"

text \<open>The cut point before batch \<open>i\<close> when \<open>L\<close> elements go into \<open>P\<close> batches.\<close>

definition cut_point :: "nat \<Rightarrow> nat \<Rightarrow> nat \<Rightarrow> nat" where
  "cut_point L P i = i * L div P"

section \<open>Strings, integer and float literals, dictionaries\<close>

text \<open>
  \<^verbatim>\<open>s.split(sep)\<close> with a one-character separator: the pieces between the
  occurrences of \<open>sep\<close>, so a string with \<open>n\<close> separators gives \<open>n + 1\<close> pieces
  and the empty string gives one empty piece.
\<close>

fun split_on :: "char \<Rightarrow> string \<Rightarrow> string list" where
  "split_on sep [] = [[]]"
| "split_on sep (c # cs) =
     (if c = sep then [] # split_on sep cs
      else (case split_on sep cs of [] \<Rightarrow> [[c]] | p # ps \<Rightarrow> (c # p) # ps))"

text \<open>\<^verbatim>\<open>xs[i]\<close> for a literal index \<open>i \<ge> 0\<close>: IndexError out of range.\<close>

definition index :: "'a list \<Rightarrow> nat \<Rightarrow> py_error + 'a" where
  "index xs i = (if i < length xs then Inr (xs ! i) else Inl IndexError)"

definition isspace :: "char \<Rightarrow> bool" where
  "isspace c \<longleftrightarrow> c = CHR '' '' \<or> c = CHR 0x09 \<or> c = CHR 0x0A \<or> c = CHR 0x0B \<or>
                c = CHR 0x0C \<or> c = CHR 0x0D"

definition isdigit :: "char \<Rightarrow> bool" where
  "isdigit c \<longleftrightarrow> 48 \<le> (of_char c :: nat) \<and> (of_char c :: nat) \<le> 57"

definition strip :: "string \<Rightarrow> string" where
  "strip s = rev (dropWhile isspace (rev (dropWhile isspace s)))"

definition unsigned :: "string \<Rightarrow> string" where
  "unsigned s = (case s of [] \<Rightarrow> [] | c # r \<Rightarrow> if c = CHR ''+'' \<or> c = CHR ''-'' then r else s)"

definition digits_value :: "string \<Rightarrow> int" where
  "digits_value ds = foldl (\<lambda>a c. 10 * a + (int (of_char c) - 48)) 0 ds"

text \<open>
  The built-in \<^verbatim>\<open>int(s)\<close> on a string, base 10, after the library reference: an
  integer literal, optionally preceded by a sign (with no space in between) and
  surrounded by whitespace; anything else raises ValueError. Python integers are
  unbounded.
\<close>

definition py_int :: "string \<Rightarrow> py_error + int" where
  "py_int s =
     (let t = strip s; ds = unsigned t
      in if ds \<noteq> [] \<and> list_all isdigit ds
         then Inr (if hd t = CHR ''-'' then - digits_value ds else digits_value ds)
         else Inl ValueError)"

text \<open>
  The built-in \<^verbatim>\<open>float(s)\<close> on a string accepts, between optional whitespace, an
  optional sign followed by \<^verbatim>\<open>inf\<close>, \<^verbatim>\<open>infinity\<close> or \<^verbatim>\<open>nan\<close> in any case, or by a
  decimal number with an optional exponent; anything else raises ValueError. The
  value of a float is never inspected by the modelled code, so a float is
  represented by the literal that denotes it.
\<close>

datatype pyfloat = PyFloat string

definition lower :: "char \<Rightarrow> char" where
  "lower c = (if 65 \<le> (of_char c :: nat) \<and> (of_char c :: nat) \<le> 90
              then char_of (of_char c + (32 :: nat)) else c)"

definition exponent_ok :: "string \<Rightarrow> bool" where
  "exponent_ok r =
     (case r of
        [] \<Rightarrow> True
      | c # e \<Rightarrow> (c = CHR ''e'' \<or> c = CHR ''E'') \<and> unsigned e \<noteq> [] \<and> list_all isdigit (unsigned e))"

definition decimal_ok :: "string \<Rightarrow> bool" where
  "decimal_ok t =
     (let ip = takeWhile isdigit t; r1 = dropWhile isdigit t
      in case r1 of
           [] \<Rightarrow> ip \<noteq> []
         | c # r \<Rightarrow>
             if c = CHR ''.''
             then (ip \<noteq> [] \<or> takeWhile isdigit r \<noteq> []) \<and> exponent_ok (dropWhile isdigit r)
             else ip \<noteq> [] \<and> exponent_ok r1)"

definition py_float :: "string \<Rightarrow> py_error + pyfloat" where
  "py_float s =
     (let t = strip s; u = unsigned t; l = map lower u
      in if l = ''inf'' \<or> l = ''infinity'' \<or> l = ''nan'' \<or> decimal_ok u
         then Inr (PyFloat t) else Inl ValueError)"

text \<open>
  A dictionary is an association list with distinct keys. Python 2 gives no order
  to the entries of a dictionary: the order of the list is one possible iteration
  order, and two dictionaries are equal when they hold the same entries
  (\<open>map_of\<close> of the two lists is the same map).
\<close>

type_synonym ('k, 'v) dict = "('k \<times> 'v) list"

definition dict_contains :: "('k, 'v) dict \<Rightarrow> 'k \<Rightarrow> bool" where
  "dict_contains d k \<longleftrightarrow> map_of d k \<noteq> None"

definition dict_get :: "('k, 'v) dict \<Rightarrow> 'k \<Rightarrow> py_error + 'v" where
  "dict_get d k = (case map_of d k of None \<Rightarrow> Inl KeyError | Some v \<Rightarrow> Inr v)"

fun dict_set :: "('k, 'v) dict \<Rightarrow> 'k \<Rightarrow> 'v \<Rightarrow> ('k, 'v) dict" where
  "dict_set [] k v = [(k, v)]"
| "dict_set (p # ps) k v = (if fst p = k then (k, v) # ps else p # dict_set ps k v)"

text \<open>\<^verbatim>\<open>dict(pairs)\<close>: the pairs are stored one after the other.\<close>

definition dict_of :: "('k \<times> 'v) list \<Rightarrow> ('k, 'v) dict" where
  "dict_of pairs = foldl (\<lambda>d (k, v). dict_set d k v) [] pairs"

section \<open>The aggregator of the sentiment notebook\<close>

text \<open>
  An item of the DynamoDB table, as the scraper writes it:
  \<^verbatim>\<open>
  record['link'] = link
  record['sentiment'] = str(sentiment['compound'])
  record['words'] = words      # a list of word + ':' + str(frequency)
  \<close>
\<close>

record item =
  link :: string
  sentiment :: string
  words :: "string list"

text \<open>
  \<^verbatim>\<open>
  all_words = {};
  for item in db_table['Items']:
      for word in item['words']:
          try:
              if word.split(':')[0] in all_words:
                  all_words[word.split(':')[0]] = all_words[word.split(':')[0]] + int(word.split(':')[1])
              else:
                  all_words[word.split(':')[0]] = int(word.split(':')[1])
          except ValueError:
              pass
  \<close>
  \<open>count_word_body\<close> is the body of the \<^verbatim>\<open>try\<close>: the dictionary is written only
  after the right-hand side has been evaluated. \<open>count_word\<close> adds the handler,
  which catches ValueError and nothing else. \<open>count_words\<close> is the inner loop and
  \<open>aggregate_from\<close> the outer one; an exception that is not caught ends both.
\<close>

definition count_word_body :: "(string, int) dict \<Rightarrow> string \<Rightarrow> py_error + (string, int) dict" where
  "count_word_body all_words word =
     (case index (split_on CHR '':'' word) 0 of
        Inl e \<Rightarrow> Inl e
      | Inr key \<Rightarrow>
          if dict_contains all_words key
          then (case dict_get all_words key of
                  Inl e \<Rightarrow> Inl e
                | Inr old \<Rightarrow>
                   (case index (split_on CHR '':'' word) 1 of
                      Inl e \<Rightarrow> Inl e
                    | Inr cnt \<Rightarrow>
                       (case py_int cnt of
                          Inl e \<Rightarrow> Inl e
                        | Inr n \<Rightarrow> Inr (dict_set all_words key (old + n)))))
          else (case index (split_on CHR '':'' word) 1 of
                  Inl e \<Rightarrow> Inl e
                | Inr cnt \<Rightarrow>
                   (case py_int cnt of
                      Inl e \<Rightarrow> Inl e
                    | Inr n \<Rightarrow> Inr (dict_set all_words key n))))"

definition count_word :: "(string, int) dict \<Rightarrow> string \<Rightarrow> py_error + (string, int) dict" where
  "count_word all_words word =
     (case count_word_body all_words word of
        Inl e \<Rightarrow> if e = ValueError then Inr all_words else Inl e
      | Inr d \<Rightarrow> Inr d)"

fun count_words :: "(string, int) dict \<Rightarrow> string list \<Rightarrow> py_error + (string, int) dict" where
  "count_words all_words [] = Inr all_words"
| "count_words all_words (word # rest) =
     (case count_word all_words word of
        Inl e \<Rightarrow> Inl e
      | Inr d \<Rightarrow> count_words d rest)"

fun aggregate_from :: "(string, int) dict \<Rightarrow> item list \<Rightarrow> py_error + (string, int) dict" where
  "aggregate_from all_words [] = Inr all_words"
| "aggregate_from all_words (it # rest) =
     (case count_words all_words (words it) of
        Inl e \<Rightarrow> Inl e
      | Inr d \<Rightarrow> aggregate_from d rest)"

definition aggregate :: "item list \<Rightarrow> py_error + (string, int) dict" where
  "aggregate items = aggregate_from [] items"

text \<open>
  \<^verbatim>\<open>top20 = dict(sorted(all_words.iteritems(), key=lambda (k, v): (-v, k))[:20])\<close>
  The key of an entry is the pair of its negated count and its token, and pairs
  are compared lexicographically. \<open>sorted\<close> is stable, as \<open>sort_key\<close> is. The
  argument of \<open>sorted_items\<close> is the sequence that \<^verbatim>\<open>iteritems\<close> yields. The slice
  keeps the first 20 entries.
\<close>

definition sorted_items :: "(string \<times> int) list \<Rightarrow> (string \<times> int) list" where
  "sorted_items its = sort_key (\<lambda>(k, v). (- v, k)) its"

definition top20 :: "(string, int) dict \<Rightarrow> (string, int) dict" where
  "top20 all_words = dict_of (take 20 (sorted_items all_words))"

text \<open>
  \<^verbatim>\<open>
  sentiments = []
  for item in db_table['Items']:
      sentiments.append(float(item['sentiment']))
  \<close>
  The loop has no handler: the first sentiment that is not a float literal ends it.
\<close>

fun sentiments_from :: "pyfloat list \<Rightarrow> item list \<Rightarrow> py_error + pyfloat list" where
  "sentiments_from sentiments [] = Inr sentiments"
| "sentiments_from sentiments (it # rest) =
     (case py_float (sentiment it) of
        Inl e \<Rightarrow> Inl e
      | Inr f \<Rightarrow> sentiments_from (sentiments @ [f]) rest)"

definition sentiments_of :: "item list \<Rightarrow> py_error + pyfloat list" where
  "sentiments_of items = sentiments_from [] items"

text \<open>
  What a token adds to the mapping: a token with a separator and an integer
  count adds its count to its word; \<open>has_sep\<close> tells whether the token has a
  second piece at all.
\<close>

definition has_sep :: "string \<Rightarrow> bool" where
  "has_sep word \<longleftrightarrow> 2 \<le> length (split_on CHR '':'' word)"

definition token_entry :: "string \<Rightarrow> (string \<times> int) option" where
  "token_entry word =
     (case split_on CHR '':'' word of
        key # cnt # _ \<Rightarrow> (case py_int cnt of Inl _ \<Rightarrow> None | Inr n \<Rightarrow> Some (key, n))
      | _ \<Rightarrow> None)"


section \<open>The result list of the NDVI notebook\<close>

text \<open>
  A result of the remote call is a dictionary from field names to values, or
  \<^verbatim>\<open>None\<close> when the scene gave no data.
  \<^verbatim>\<open>
  timeSeries = filter(None,resultsHK)
  ndviSeries = [obs['ndvi'] for obs in timeSeries if 'ndvi' in obs]
  \<close>
  \<^verbatim>\<open>filter(None, xs)\<close> keeps the elements that are true: it drops \<^verbatim>\<open>None\<close> and the
  empty dictionary. \<^verbatim>\<open>k in obs\<close> and \<^verbatim>\<open>obs[k]\<close> raise TypeError on \<^verbatim>\<open>None\<close>, and
  \<^verbatim>\<open>obs[k]\<close> raises KeyError on a dictionary without \<open>k\<close>. In the comprehension
  \<open>project\<close> the condition is evaluated before the element.
\<close>

definition truthy :: "(string, 'v) dict option \<Rightarrow> bool" where
  "truthy r = (case r of None \<Rightarrow> False | Some d \<Rightarrow> d \<noteq> [])"

definition filter_None :: "(string, 'v) dict option list \<Rightarrow> (string, 'v) dict option list" where
  "filter_None rs = filter truthy rs"

definition contains :: "string \<Rightarrow> (string, 'v) dict option \<Rightarrow> py_error + bool" where
  "contains k r = (case r of None \<Rightarrow> Inl TypeError | Some d \<Rightarrow> Inr (dict_contains d k))"

definition getitem :: "(string, 'v) dict option \<Rightarrow> string \<Rightarrow> py_error + 'v" where
  "getitem r k = (case r of None \<Rightarrow> Inl TypeError | Some d \<Rightarrow> dict_get d k)"

fun project :: "string \<Rightarrow> (string, 'v) dict option list \<Rightarrow> py_error + 'v list" where
  "project k [] = Inr []"
| "project k (obs # rest) =
     (case contains k obs of
        Inl e \<Rightarrow> Inl e
      | Inr True \<Rightarrow>
         (case getitem obs k of
            Inl e \<Rightarrow> Inl e
          | Inr v \<Rightarrow> (case project k rest of Inl e \<Rightarrow> Inl e | Inr vs \<Rightarrow> Inr (v # vs)))
      | Inr False \<Rightarrow> project k rest)"

definition ndviSeries :: "(string, 'v) dict option list \<Rightarrow> py_error + 'v list" where
  "ndviSeries resultsHK = project ''ndvi'' (filter_None resultsHK)"

text \<open>Whether a result is a dictionary that has the field \<open>k\<close>.\<close>

definition has_field :: "string \<Rightarrow> (string, 'v) dict option \<Rightarrow> bool" where
  "has_field k r = (case r of None \<Rightarrow> False | Some d \<Rightarrow> dict_contains d k)"

section \<open>Properties of the batcher\<close>

lemma py_range_upt: "py_range (int n) = map int [0..<n]"
proof (induction n)
  case 0
  show ?case by (simp add: py_range_def)
next
  case (Suc n)
  have "[0..int (Suc n) - 1] = [0..int n - 1] @ [int n]"
    using upto_rec2 [of 0 "int n"] by simp
  with Suc show ?case by (simp add: py_range_def)
qed

lemma split_list_parts_ok:
  assumes "P \<noteq> 0"
  shows "split_list_parts xs P js =
    Inr (map (\<lambda>i. py_slice xs (i * int (length xs) div P) ((i + 1) * int (length xs) div P)) js)"
  using assms by (induction js) (simp_all add: floordiv_def)

lemma py_slice_cut:
  assumes "0 < P"
  shows "py_slice xs (int i * int (length xs) div int P) ((int i + 1) * int (length xs) div int P)
    = take (cut_point (length xs) P (Suc i) - cut_point (length xs) P i) (drop (cut_point (length xs) P i) xs)"
proof -
  have a: "int i * int (length xs) div int P = int (cut_point (length xs) P i)"
    by (simp add: cut_point_def zdiv_int)
  have b: "(int i + 1) * int (length xs) div int P = int (cut_point (length xs) P (Suc i))"
    by (simp add: cut_point_def zdiv_int algebra_simps)
  have c: "cut_point (length xs) P i \<le> cut_point (length xs) P (Suc i)"
    by (simp add: cut_point_def div_le_mono)
  show ?thesis
    unfolding a b py_slice_def slice_index_def Let_def
    by (cases "cut_point (length xs) P (Suc i) \<le> length xs") (use c in \<open>auto simp: min_def\<close>)
qed

lemma split_list_cut:
  assumes "0 < P"
  shows "split_list xs (int P) =
    Inr (map (\<lambda>i. take (cut_point (length xs) P (Suc i) - cut_point (length xs) P i)
                     (drop (cut_point (length xs) P i) xs)) [0..<P])"
proof -
  have "split_list xs (int P) =
    Inr (map (\<lambda>i. py_slice xs (i * int (length xs) div int P) ((i + 1) * int (length xs) div int P))
          (map int [0..<P]))"
    using assms by (simp add: split_list_def py_range_upt split_list_parts_ok)
  then show ?thesis
    using assms by (simp add: py_slice_cut comp_def)
qed

lemma concat_slices:
  assumes "\<And>i. i < n \<Longrightarrow> b i \<le> b (Suc i)" and "b 0 = (0::nat)"
  shows "concat (map (\<lambda>i. take (b (Suc i) - b i) (drop (b i) xs)) [0..<n]) = take (b n) xs"
  using assms(1)
proof (induction n)
  case 0
  show ?case by (simp add: assms(2))
next
  case (Suc n)
  then have ih: "concat (map (\<lambda>i. take (b (Suc i) - b i) (drop (b i) xs)) [0..<n]) = take (b n) xs"
    by simp
  have le: "b n \<le> b (Suc n)" using Suc.prems by simp
  have "take (b n) xs @ take (b (Suc n) - b n) (drop (b n) xs) = take (b n + (b (Suc n) - b n)) xs"
    by (simp add: take_add)
  with le ih show ?case by simp
qed

lemma cut_point_mono: "cut_point L P i \<le> cut_point L P (Suc i)"
  by (simp add: cut_point_def div_le_mono)

lemma cut_point_0: "cut_point L P 0 = 0"
  by (simp add: cut_point_def)

lemma cut_point_full: "0 < P \<Longrightarrow> cut_point L P P = L"
  by (simp add: cut_point_def)

lemma cut_point_le: 
  assumes "0 < P" "i \<le> P" shows "cut_point L P i \<le> L"
proof -
  have "i * L div P \<le> P * L div P" using assms(2) by (intro div_le_mono) simp
  then show ?thesis using assms(1) by (simp add: cut_point_def)
qed

lemma cut_point_step:
  assumes "0 < P"
  shows "cut_point L P (Suc i) - cut_point L P i = L div P \<or>
         cut_point L P (Suc i) - cut_point L P i = Suc (L div P)"
proof -
  have m: "(i * L mod P + L mod P) div P \<le> 1"
  proof -
    have a: "i * L mod P < P" using assms by simp
    have b: "L mod P < P" using assms by simp
    from a b have "i * L mod P + L mod P < 2 * P" by linarith
    then have "(i * L mod P + L mod P) div P < 2"
      using assms by (simp add: div_less_iff_less_mult mult.commute)
    then show ?thesis by simp
  qed
  have "cut_point L P (Suc i) = cut_point L P i + L div P + (i * L mod P + L mod P) div P"
    using div_add1_eq [of "i * L" L P] by (simp add: cut_point_def add.commute)
  with m show ?thesis by auto
qed

lemma slice_length: "c' \<le> L \<Longrightarrow> min (L - c) (c' - c) = c' - (c::nat)"
  by arith

lemma split_list_length:
  assumes "0 < P" and "split_list xs (int P) = Inr bs"
  shows "map length bs =
     map (\<lambda>i. cut_point (length xs) P (Suc i) - cut_point (length xs) P i) [0..<P]"
proof -
  have "i < P \<Longrightarrow> cut_point (length xs) P (Suc i) \<le> length xs" for i
    using cut_point_le [OF assms(1), of "Suc i" "length xs"] by simp
  then show ?thesis
    using assms(2) unfolding split_list_cut [OF assms(1)] by (auto simp: slice_length)
qed


lemma py_range_nonpos: "P \<le> 0 \<Longrightarrow> py_range P = []"
  by (simp add: py_range_def)

lemma split_list_nat:
  assumes "1 \<le> P"
  obtains n where "P = int n" and "0 < n"
proof
  show "P = int (nat P)" using assms by simp
  show "0 < nat P" using assms by simp
qed

text \<open>
  Claim C1. For every list and every partition count \<open>P \<ge> 1\<close>, \<open>split_list\<close> returns
  (without raising) exactly \<open>P\<close> batches whose concatenation, in order, is the input
  list: nothing is reordered, lost or duplicated.
\<close>

theorem split_list_concat:
  assumes "1 \<le> P"
  shows "\<exists>bs. split_list xs P = Inr bs \<and> int (length bs) = P \<and> concat bs = xs"
proof -
  obtain n where n: "P = int n" "0 < n"
    using assms by (rule split_list_nat)
  let ?bs = "map (\<lambda>i. take (cut_point (length xs) n (Suc i) - cut_point (length xs) n i)
                     (drop (cut_point (length xs) n i) xs)) [0..<n]"
  have "concat ?bs = take (cut_point (length xs) n n) xs"
    by (rule concat_slices) (simp_all add: cut_point_mono cut_point_0)
  then have "concat ?bs = xs"
    using n(2) by (simp add: cut_point_full)
  moreover have "split_list xs P = Inr ?bs"
    using n by (simp add: split_list_cut)
  moreover have "int (length ?bs) = P"
    using n by simp
  ultimately show ?thesis by blast
qed

text \<open>The statement of C1 at the list \<open>[1, 2, 3, 4, 5]\<close> and \<open>P = 2\<close>.\<close>

theorem split_list_concat_witness:
  "(1::int) \<le> 2 \<and>
   (\<exists>bs. split_list [1, 2, 3, 4, 5 :: nat] 2 = Inr bs \<and> int (length bs) = 2 \<and>
         concat bs = [1, 2, 3, 4, 5])"
  using split_list_concat [of 2 "[1, 2, 3, 4, 5 :: nat]"] by simp

text \<open>
  Claim C4. For every list of length \<open>L\<close> and every partition count \<open>P \<ge> 1\<close>,
  \<open>split_list\<close> returns exactly \<open>P\<close> batches that make up the list, each of
  \<open>L div P\<close> or \<open>L div P + 1\<close> elements, so the largest and the smallest batch differ
  by at most one element; when the list is shorter than \<open>P\<close> the call still
  returns, and some batch is empty.
\<close>

theorem split_list_balanced:
  assumes "1 \<le> P"
  shows "\<exists>bs. split_list xs P = Inr bs \<and> int (length bs) = P \<and> concat bs = xs \<and>
          (\<forall>b \<in> set bs. int (length b) = int (length xs) div P \<or>
                         int (length b) = int (length xs) div P + 1) \<and>
          int (Max (length ` set bs)) - int (Min (length ` set bs)) \<le> 1 \<and>
          (int (length xs) < P \<longrightarrow> [] \<in> set bs)"
proof -
  obtain n where n: "P = int n" "0 < n"
    using assms by (rule split_list_nat)
  let ?L = "length xs"
  define bs where "bs = map (\<lambda>i. take (cut_point ?L n (Suc i) - cut_point ?L n i)
                     (drop (cut_point ?L n i) xs)) [0..<n]"
  have bs: "split_list xs (int n) = Inr bs"
    unfolding bs_def using n(2) by (rule split_list_cut)
  have count: "int (length bs) = P"
    using n(1) by (simp add: bs_def)
  have "concat bs = take (cut_point ?L n n) xs"
    unfolding bs_def by (rule concat_slices) (simp_all add: cut_point_mono cut_point_0)
  then have cat: "concat bs = xs"
    using n(2) by (simp add: cut_point_full)
  have len: "map length bs =
      map (\<lambda>i. cut_point ?L n (Suc i) - cut_point ?L n i) [0..<n]"
    using n(2) bs by (rule split_list_length)
  have lens: "length ` set bs = (\<lambda>i. cut_point ?L n (Suc i) - cut_point ?L n i) ` {0..<n}"
  proof -
    have "set (map length bs) = set (map (\<lambda>i. cut_point ?L n (Suc i) - cut_point ?L n i) [0..<n])"
      by (simp only: len)
    then show ?thesis by (simp only: set_map set_upt)
  qed
  have step: "l = ?L div n \<or> l = Suc (?L div n)" if "l \<in> length ` set bs" for l
  proof -
    from that lens obtain i where "l = cut_point ?L n (Suc i) - cut_point ?L n i"
      by auto
    with cut_point_step [OF n(2), of ?L i] show ?thesis by simp
  qed
  have sizes: "\<forall>b \<in> set bs. int (length b) = int ?L div P \<or> int (length b) = int ?L div P + 1"
  proof
    fix b
    assume "b \<in> set bs"
    then have "length b \<in> length ` set bs" by (rule imageI)
    from step [OF this] have "int (length b) = int (?L div n) \<or> int (length b) = int (?L div n) + 1"
      by auto
    then show "int (length b) = int ?L div P \<or> int (length b) = int ?L div P + 1"
      by (simp only: n(1) zdiv_int)
  qed
  have ne: "length ` set bs \<noteq> {}"
    unfolding lens using n(2) by simp
  have fin: "finite (length ` set bs)" by (intro finite_imageI finite_set)
  have "l \<le> Suc (?L div n)" if "l \<in> length ` set bs" for l
    using step [OF that] by linarith
  then have "\<forall>l \<in> length ` set bs. l \<le> Suc (?L div n)"
    by (rule ballI)
  then have hi: "Max (length ` set bs) \<le> Suc (?L div n)"
    by (simp only: Max_le_iff [OF fin ne])
  have "?L div n \<le> l" if "l \<in> length ` set bs" for l
    using step [OF that] by linarith
  then have "\<forall>l \<in> length ` set bs. ?L div n \<le> l"
    by (rule ballI)
  then have lo: "?L div n \<le> Min (length ` set bs)"
    by (simp only: Min_ge_iff [OF fin ne])
  from hi lo have bal: "int (Max (length ` set bs)) - int (Min (length ` set bs)) \<le> 1"
    by linarith
  have empty: "[] \<in> set bs" if "?L < n"
  proof -
    have "cut_point ?L n (Suc 0) - cut_point ?L n 0 \<in> length ` set bs"
      unfolding lens using n(2) by (intro imageI) simp
    moreover have "cut_point ?L n (Suc 0) - cut_point ?L n 0 = 0"
      using that by (simp add: cut_point_def)
    ultimately have "0 \<in> length ` set bs" by simp
    then obtain b where "b \<in> set bs" "length b = 0" by auto
    then show ?thesis by simp
  qed
  have short: "int ?L < P \<longrightarrow> [] \<in> set bs"
    using empty n(1) by simp
  from bs n(1) have res: "split_list xs P = Inr bs" by simp
  show ?thesis
    by (intro exI [of _ bs] conjI) (rule res count cat sizes bal short)+
qed

text \<open>The statement of C4 at a two-element list and \<open>P = 3\<close>.\<close>

theorem split_list_balanced_witness:
  "(1::int) \<le> 3 \<and> int (length [7, 8 :: nat]) < 3 \<and>
   (\<exists>bs. split_list [7, 8 :: nat] 3 = Inr bs \<and> int (length bs) = 3 \<and> concat bs = [7, 8] \<and>
         (\<forall>b \<in> set bs. int (length b) = int (length [7, 8 :: nat]) div 3 \<or>
                         int (length b) = int (length [7, 8 :: nat]) div 3 + 1) \<and>
         int (Max (length ` set bs)) - int (Min (length ` set bs)) \<le> 1 \<and> [] \<in> set bs)"
proof -
  have h1: "(1::int) \<le> 3" by simp
  have h2: "int (length [7, 8 :: nat]) < 3" by simp
  from split_list_balanced [OF h1, of "[7, 8 :: nat]"] obtain bs where
    b: "split_list [7, 8 :: nat] 3 = Inr bs" "int (length bs) = 3" "concat bs = [7, 8]"
       "\<forall>b \<in> set bs. int (length b) = int (length [7, 8 :: nat]) div 3 \<or>
                      int (length b) = int (length [7, 8 :: nat]) div 3 + 1"
       "int (Max (length ` set bs)) - int (Min (length ` set bs)) \<le> 1"
       "int (length [7, 8 :: nat]) < 3 \<longrightarrow> [] \<in> set bs"
    by (elim exE conjE)
  from b(6) h2 have e: "[] \<in> set bs" by (rule mp)
  show ?thesis
    by (intro conjI exI [of _ bs]) (rule h1 h2 b(1) b(2) b(3) b(4) b(5) e)+
qed

text \<open>
  Claim C3, as amended. Batching the five-element list \<open>[u1, u2, u3, u4, u5]\<close> with
  \<open>P = 2\<close> gives the two batches \<open>[u1, u2]\<close> and \<open>[u3, u4, u5]\<close>, in that order: the
  cut point is \<open>1 * 5 // 2 = 2\<close>, so the shorter batch comes first.
\<close>

theorem split_list_two_of_five:
  "split_list [u1, u2, u3, u4, u5] 2 = Inr [[u1, u2], [u3, u4, u5]]"
  by (simp add: split_list_def py_range_def upto.simps floordiv_def py_slice_def slice_index_def)

text \<open>
  Claim C3, as stated, names the batches \<open>[u1, u2, u3]\<close> and \<open>[u4, u5]\<close>; the function
  does not return them.
\<close>

theorem split_list_two_of_five_counterexample:
  "split_list [''u1'', ''u2'', ''u3'', ''u4'', ''u5''] 2 \<noteq>
     Inr [[''u1'', ''u2'', ''u3''], [''u4'', ''u5'']]"
  by (simp add: split_list_def py_range_def upto.simps floordiv_def py_slice_def slice_index_def)

lemma split_list_shape:
  assumes "length alist = length blist"
  shows "map_sum id (map length) (split_list alist P) = map_sum id (map length) (split_list blist P)"
proof (cases "1 \<le> P")
  case True
  then obtain n where n: "P = int n" "0 < n" by (rule split_list_nat)
  obtain as where as: "split_list alist (int n) = Inr as"
    using n(2) by (simp add: split_list_cut)
  obtain bs where bs: "split_list blist (int n) = Inr bs"
    using n(2) by (simp add: split_list_cut)
  have "map length as = map length bs"
    using split_list_length [OF n(2) as] split_list_length [OF n(2) bs] assms by simp
  with as bs n show ?thesis by simp
next
  case False
  then show ?thesis by (simp add: split_list_def py_range_nonpos)
qed

text \<open>
  Claim C8. Batching is deterministic: two runs of \<open>split_list\<close> on the same list and
  the same partition count give the same result; moreover the sizes of the batches
  depend on the length of the list and on the partition count only.
\<close>

theorem split_list_deterministic:
  "(alist = alist' \<and> wanted_parts = wanted_parts' \<longrightarrow>
      split_list alist wanted_parts = split_list alist' wanted_parts') \<and>
   (length alist = length blist \<longrightarrow>
      map_sum id (map length) (split_list alist wanted_parts) =
      map_sum id (map length) (split_list blist wanted_parts))"
  using split_list_shape by blast

text \<open>The statement of C8 at two three-element lists and \<open>P = 2\<close>.\<close>

theorem split_list_deterministic_witness:
  "split_list [1, 2, 3 :: nat] 2 = split_list [1, 2, 3] 2 \<and>
   map_sum id (map length) (split_list [1, 2, 3 :: nat] 2) =
   map_sum id (map length) (split_list [''a'', ''b'', ''c''] 2)"
  using split_list_deterministic [of "[1, 2, 3 :: nat]" "[1, 2, 3]" 2 2 "[''a'', ''b'', ''c'']"]
  by simp

text \<open>
  Claim C9. Outside the precondition, for \<open>wanted_parts \<le> 0\<close>, \<open>split_list\<close> returns
  the empty list of batches and raises nothing (the range is empty, so no division
  is evaluated); hence for a non-empty input the concatenation of the batches is
  not the input.
\<close>

theorem split_list_nonpositive:
  assumes "wanted_parts \<le> 0"
  shows "split_list alist wanted_parts = Inr [] \<and>
         (alist \<noteq> [] \<longrightarrow> (\<forall>bs. split_list alist wanted_parts = Inr bs \<longrightarrow> concat bs \<noteq> alist))"
  using assms by (simp add: split_list_def py_range_nonpos)

text \<open>The statement of C9 at \<open>wanted_parts = -3\<close> and a three-element list.\<close>

theorem split_list_nonpositive_witness:
  "(-3::int) \<le> 0 \<and> split_list [1, 2, 3 :: nat] (-3) = Inr [] \<and> [1, 2, 3 :: nat] \<noteq> [] \<and>
   \<not> (\<exists>bs. split_list [1, 2, 3 :: nat] (-3) = Inr bs \<and> concat bs = [1, 2, 3])"
  using split_list_nonpositive [of "-3" "[1, 2, 3 :: nat]"] by simp

section \<open>Properties of the word-count aggregation\<close>


lemma split_on_not_Nil: "split_on sep s \<noteq> []"
  by (induction s) (auto split: list.splits)


lemma count_word_sep:
  assumes "has_sep word"
  shows "count_word d word =
    Inr (case token_entry word of
           None \<Rightarrow> d
         | Some (key, n) \<Rightarrow>
             dict_set d key (case map_of d key of None \<Rightarrow> n | Some old \<Rightarrow> old + n))"
proof -
  obtain key r where r: "split_on CHR '':'' word = key # r"
    using split_on_not_Nil [of "CHR '':''" word] by (cases "split_on CHR '':'' word") auto
  with assms obtain cnt rest where s: "split_on CHR '':'' word = key # cnt # rest"
    by (cases r) (auto simp: has_sep_def)
  show ?thesis
  proof (cases "py_int cnt")
    case (Inl e)
    have "e = ValueError"
      using Inl by (simp add: py_int_def Let_def split: if_splits)
    with Inl s show ?thesis
      by (simp add: count_word_def count_word_body_def index_def token_entry_def
          dict_contains_def dict_get_def split: option.splits)
  next
    case (Inr n)
    with s show ?thesis
      by (simp add: count_word_def count_word_body_def index_def token_entry_def
          dict_contains_def dict_get_def split: option.splits)
  qed
qed





lemma count_words_append:
  "count_words d (xs @ ys) =
     (case count_words d xs of Inl e \<Rightarrow> Inl e | Inr d' \<Rightarrow> count_words d' ys)"
  by (induction xs arbitrary: d) (simp_all split: sum.splits)

lemma aggregate_from_flat:
  "aggregate_from d items = count_words d (concat (map words items))"
  by (induction items arbitrary: d) (simp_all add: count_words_append split: sum.splits)








lemma py_int_simps:
  "py_int ''3'' = Inr 3" "py_int ''2'' = Inr 2" "py_int ''1'' = Inr 1"
  by (simp_all add: py_int_def strip_def unsigned_def isspace_def isdigit_def digits_value_def)


lemma count_word_skip:
  assumes "index (split_on CHR '':'' word) 1 = Inr cnt" and "py_int cnt = Inl ValueError"
  shows "count_word d word = Inr d"
proof -
  from assms(1) have len: "1 < length (split_on CHR '':'' word)"
    and cnt: "split_on CHR '':'' word ! 1 = cnt"
    by (auto simp: index_def split: if_splits)
  then obtain key rest where s: "split_on CHR '':'' word = key # cnt # rest"
    by (cases "split_on CHR '':'' word"; cases "tl (split_on CHR '':'' word)") auto
  then have "has_sep word" by (simp add: has_sep_def)
  moreover have "token_entry word = None"
    using s assms(2) by (simp add: token_entry_def)
  ultimately show ?thesis by (simp add: count_word_sep)
qed

lemma count_words_skip:
  assumes "\<And>d. count_word d word = Inr d"
  shows "count_words d (pre @ word # post) = count_words d (pre @ post)"
  by (simp add: count_words_append assms split: sum.splits)

lemma py_float_error: "py_float s = Inl e \<Longrightarrow> e = ValueError"
  by (simp add: py_float_def Let_def split: if_splits)

lemma sentiments_from_error:
  "\<exists>it \<in> set items. py_float (sentiment it) = Inl ValueError \<Longrightarrow>
     sentiments_from acc items = Inl ValueError"
proof (induction items arbitrary: acc)
  case Nil
  then show ?case by simp
next
  case (Cons it items)
  show ?case
  proof (cases "py_float (sentiment it)")
    case (Inl e)
    then show ?thesis using py_float_error [OF Inl] by simp
  next
    case (Inr f)
    with Cons.prems have "\<exists>it \<in> set items. py_float (sentiment it) = Inl ValueError" by auto
    with Cons.IH Inr show ?thesis by simp
  qed
qed

lemma sentiments_from_ok:
  "list_all (\<lambda>it. py_float (sentiment it) \<noteq> Inl ValueError) items \<Longrightarrow>
     \<exists>fs. sentiments_from acc items = Inr (acc @ fs) \<and> length fs = length items"
proof (induction items arbitrary: acc)
  case Nil
  then show ?case by simp
next
  case (Cons it items)
  then obtain f where f: "py_float (sentiment it) = Inr f"
    using py_float_error [of "sentiment it"] by (cases "py_float (sentiment it)") auto
  from Cons.prems have "list_all (\<lambda>it. py_float (sentiment it) \<noteq> Inl ValueError) items" by simp
  from Cons.IH [OF this, of "acc @ [f]"] obtain fs where
    "sentiments_from (acc @ [f]) items = Inr ((acc @ [f]) @ fs)" "length fs = length items" by blast
  with f show ?case by (intro exI [of _ "f # fs"]) simp
qed

text \<open>
  Claim C2, as amended. In the word-frequency aggregation a token that has a
  separator and whose count (the piece after the first separator) is not an
  integer literal is skipped silently: the mapping is left as it is and the
  aggregation goes on over the remaining tokens and records, with the same outcome
  as if the token were not there. The sentiment projection skips nothing: it
  raises ValueError when some sentiment is not a float literal, and gives one
  number per record otherwise.
\<close>

theorem malformed_count_skipped:
  "(index (split_on CHR '':'' word) 1 = Inr cnt \<and> py_int cnt = Inl ValueError \<longrightarrow>
      count_word all_words word = Inr all_words \<and>
      count_words all_words (pre @ word # post) = count_words all_words (pre @ post) \<and>
      aggregate_from all_words (before @ it\<lparr>words := pre @ word # post\<rparr> # after) =
      aggregate_from all_words (before @ it\<lparr>words := pre @ post\<rparr> # after)) \<and>
   ((\<exists>it \<in> set items. py_float (sentiment it) = Inl ValueError) \<longrightarrow>
      sentiments_of items = Inl ValueError) \<and>
   (list_all (\<lambda>it. py_float (sentiment it) \<noteq> Inl ValueError) items' \<longrightarrow>
      (\<exists>fs. sentiments_of items' = Inr fs \<and> length fs = length items'))"
proof (intro conjI impI)
  assume a: "index (split_on CHR '':'' word) 1 = Inr cnt \<and> py_int cnt = Inl ValueError"
  then have skip: "count_word d word = Inr d" for d
    by (intro count_word_skip [of word cnt]) simp_all
  show "count_word all_words word = Inr all_words" by (rule skip)
  show "count_words all_words (pre @ word # post) = count_words all_words (pre @ post)"
    by (rule count_words_skip) (rule skip)
  have "count_words all_words
          ((concat (map words before) @ pre) @ word # (post @ concat (map words after))) =
        count_words all_words
          ((concat (map words before) @ pre) @ (post @ concat (map words after)))"
    by (rule count_words_skip) (rule skip)
  then show "aggregate_from all_words (before @ it\<lparr>words := pre @ word # post\<rparr> # after) =
      aggregate_from all_words (before @ it\<lparr>words := pre @ post\<rparr> # after)"
    by (simp add: aggregate_from_flat)
next
  assume "\<exists>it \<in> set items. py_float (sentiment it) = Inl ValueError"
  then show "sentiments_of items = Inl ValueError"
    unfolding sentiments_of_def by (rule sentiments_from_error)
next
  assume "list_all (\<lambda>it. py_float (sentiment it) \<noteq> Inl ValueError) items'"
  from sentiments_from_ok [OF this, of "[]"]
  show "\<exists>fs. sentiments_of items' = Inr fs \<and> length fs = length items'"
    by (simp add: sentiments_of_def)
qed

lemma py_int_x: "py_int ''x'' = Inl ValueError"
  by (simp add: py_int_def strip_def unsigned_def isspace_def isdigit_def)

lemma py_float_na: "py_float ''n/a'' = Inl ValueError"
  by (simp add: py_float_def strip_def unsigned_def isspace_def isdigit_def lower_def
      decimal_ok_def exponent_ok_def)

lemma py_float_half: "py_float ''0.5'' = Inr (PyFloat ''0.5'')"
  by (simp add: py_float_def strip_def unsigned_def isspace_def isdigit_def lower_def
      decimal_ok_def exponent_ok_def)

text \<open>
  Claim C2, as stated, has a token without separator skipped, and a malformed
  field skipped in the numeric projection. The token \<open>b\<close> ends the aggregation
  with IndexError, which the handler does not catch, and the sentiment \<open>n/a\<close> ends
  the projection with ValueError.
\<close>

theorem malformed_token_counterexample:
  "aggregate [\<lparr>link = ''l'', sentiment = ''0.5'', words = [''a:3'', ''b'', ''c:1'']\<rparr>] = Inl IndexError \<and>
   sentiments_of [\<lparr>link = ''l'', sentiment = ''n/a'', words = []\<rparr>,
                  \<lparr>link = ''m'', sentiment = ''0.5'', words = []\<rparr>] = Inl ValueError"
  by (simp add: aggregate_def count_word_def count_word_body_def index_def
      dict_contains_def dict_get_def py_int_simps sentiments_of_def py_float_na)


text \<open>
  The statement of C2 at the token \<open>b:x\<close> between two good tokens, and at sentiment
  lists with and without the malformed sentiment \<open>n/a\<close>.
\<close>

theorem malformed_count_skipped_witness:
  "index (split_on CHR '':'' ''b:x'') 1 = Inr ''x'' \<and> py_int ''x'' = Inl ValueError \<and>
   count_word [(''a'', 3)] ''b:x'' = Inr [(''a'', 3)] \<and>
   count_words [(''a'', 3)] ([''a:3''] @ ''b:x'' # [''c:1'']) =
     count_words [(''a'', 3)] ([''a:3''] @ [''c:1'']) \<and>
   aggregate_from [(''a'', 3)]
     ([] @ \<lparr>link = ''l'', sentiment = ''n/a'', words = []\<rparr>\<lparr>words := [''a:3''] @ ''b:x'' # [''c:1'']\<rparr> # []) =
   aggregate_from [(''a'', 3)]
     ([] @ \<lparr>link = ''l'', sentiment = ''n/a'', words = []\<rparr>\<lparr>words := [''a:3''] @ [''c:1'']\<rparr> # []) \<and>
   py_float ''n/a'' = Inl ValueError \<and>
   sentiments_of [\<lparr>link = ''m'', sentiment = ''0.5'', words = []\<rparr>,
                  \<lparr>link = ''l'', sentiment = ''n/a'', words = []\<rparr>] = Inl ValueError \<and>
   (\<exists>fs. sentiments_of [\<lparr>link = ''m'', sentiment = ''0.5'', words = []\<rparr>] = Inr fs \<and>
         length fs = length [\<lparr>link = ''m'', sentiment = ''0.5'', words = []\<rparr>])"
proof -
  have h1: "index (split_on CHR '':'' ''b:x'') 1 = Inr ''x'' \<and> py_int ''x'' = Inl ValueError"
    by (simp add: index_def py_int_x)
  have h2: "\<exists>it \<in> set [\<lparr>link = ''m'', sentiment = ''0.5'', words = []\<rparr>,
                        \<lparr>link = ''l'', sentiment = ''n/a'', words = []\<rparr>].
              py_float (sentiment it) = Inl ValueError"
    by (simp add: py_float_na)
  have h3: "list_all (\<lambda>it. py_float (sentiment it) \<noteq> Inl ValueError)
              [\<lparr>link = ''m'', sentiment = ''0.5'', words = []\<rparr>]"
    by (simp add: py_float_half)
  note t = malformed_count_skipped [of "''b:x''" "''x''" "[(''a'', 3)]" "[''a:3'']" "[''c:1'']" "[]"
      "\<lparr>link = ''l'', sentiment = ''n/a'', words = []\<rparr>" "[]"
      "[\<lparr>link = ''m'', sentiment = ''0.5'', words = []\<rparr>,
        \<lparr>link = ''l'', sentiment = ''n/a'', words = []\<rparr>]"
      "[\<lparr>link = ''m'', sentiment = ''0.5'', words = []\<rparr>]"]
  from t h1 have c1: "count_word [(''a'', 3)] ''b:x'' = Inr [(''a'', 3)] \<and>
   count_words [(''a'', 3)] ([''a:3''] @ ''b:x'' # [''c:1'']) =
     count_words [(''a'', 3)] ([''a:3''] @ [''c:1'']) \<and>
   aggregate_from [(''a'', 3)]
     ([] @ \<lparr>link = ''l'', sentiment = ''n/a'', words = []\<rparr>\<lparr>words := [''a:3''] @ ''b:x'' # [''c:1'']\<rparr> # []) =
   aggregate_from [(''a'', 3)]
     ([] @ \<lparr>link = ''l'', sentiment = ''n/a'', words = []\<rparr>\<lparr>words := [''a:3''] @ [''c:1'']\<rparr> # [])"
    by blast
  from t h2 have c2: "sentiments_of [\<lparr>link = ''m'', sentiment = ''0.5'', words = []\<rparr>,
                  \<lparr>link = ''l'', sentiment = ''n/a'', words = []\<rparr>] = Inl ValueError"
    by blast
  from t h3 have c3: "\<exists>fs. sentiments_of [\<lparr>link = ''m'', sentiment = ''0.5'', words = []\<rparr>] = Inr fs \<and>
         length fs = length [\<lparr>link = ''m'', sentiment = ''0.5'', words = []\<rparr>]"
    by blast
  from h1 c1 c2 c3 py_float_na show ?thesis by blast
qed

section \<open>Properties of the NDVI series\<close>

lemma has_field_truthy: "has_field k r \<Longrightarrow> truthy r"
  by (cases r) (auto simp: has_field_def truthy_def dict_contains_def)

lemma has_field_Some: "has_field k (Some d) = dict_contains d k"
  by (simp add: has_field_def)

lemma project_present:
  "list_all (\<lambda>r. r \<noteq> None) rs \<Longrightarrow>
     \<exists>vs. project k rs = Inr vs \<and> length vs = length (filter (has_field k) rs)"
proof (induction rs)
  case Nil
  then show ?case by simp
next
  case (Cons r rs)
  then obtain d where r: "r = Some d" by auto
  from Cons obtain vs where vs: "project k rs = Inr vs" "length vs = length (filter (has_field k) rs)"
    by auto
  show ?case
  proof (cases "dict_contains d k")
    case True
    then obtain v where "dict_get d k = Inr v"
      by (auto simp: dict_contains_def dict_get_def)
    with True r vs show ?thesis
      by (simp add: contains_def getitem_def has_field_Some)
  next
    case False
    with r vs show ?thesis
      by (simp add: contains_def getitem_def has_field_Some)
  qed
qed

lemma filter_None_present: "list_all (\<lambda>r. r \<noteq> None) (filter_None rs)"
  by (auto simp: filter_None_def list_all_iff truthy_def split: option.splits)

lemma filter_has_field: "filter (has_field k) (filter_None rs) = filter (has_field k) rs"
  by (auto simp: filter_None_def has_field_truthy intro: filter_cong)

lemma filter_None_shorter: "None \<in> set rs \<Longrightarrow> length (filter_None rs) < length rs"
  unfolding filter_None_def
  by (rule length_filter_less [of None]) (simp_all add: truthy_def)

text \<open>
  Claim C7, as amended. The null results are filtered out before the projection,
  which then raises nothing; the series has one value for each result that has
  the projected field, so its length is at most the number of results that
  pass the filter, equal to it when each of them has the field, and strictly less
  than the number of results when some result is null.
\<close>

theorem ndviSeries_length:
  "\<exists>series. ndviSeries resultsHK = Inr series \<and>
      length series = length (filter (has_field ''ndvi'') resultsHK) \<and>
      length series \<le> length (filter_None resultsHK) \<and>
      (None \<in> set resultsHK \<longrightarrow> length series < length resultsHK) \<and>
      (list_all (has_field ''ndvi'') (filter_None resultsHK) \<longrightarrow>
         length series = length (filter_None resultsHK))"
proof -
  from project_present [OF filter_None_present, of "''ndvi''" resultsHK]
  obtain series where s: "ndviSeries resultsHK = Inr series"
    and l: "length series = length (filter (has_field ''ndvi'') resultsHK)"
    by (auto simp: ndviSeries_def filter_has_field)
  have l': "length series = length (filter (has_field ''ndvi'') (filter_None resultsHK))"
    using l by (simp add: filter_has_field)
  have le: "length series \<le> length (filter_None resultsHK)"
    unfolding l' by (rule length_filter_le)
  have lt: "length series < length resultsHK" if "None \<in> set resultsHK"
    using le filter_None_shorter [OF that] by simp
  have eq: "length series = length (filter_None resultsHK)"
    if "list_all (has_field ''ndvi'') (filter_None resultsHK)"
    unfolding l' using that by (simp add: list_all_iff)
  from s l le lt eq show ?thesis by blast
qed

text \<open>The statement of C7 at a null result, a full result and an empty one.\<close>

theorem ndviSeries_length_witness:
  "None \<in> set [None, Some [(''date'', ''2017-08-29''), (''ndvi'', ''0.61'')], Some []] \<and>
   list_all (has_field ''ndvi'')
     (filter_None [None, Some [(''date'', ''2017-08-29''), (''ndvi'', ''0.61'')], Some []]) \<and>
   (\<exists>series. ndviSeries [None, Some [(''date'', ''2017-08-29''), (''ndvi'', ''0.61'')], Some []] = Inr series \<and>
      length series = length (filter (has_field ''ndvi'')
          [None, Some [(''date'', ''2017-08-29''), (''ndvi'', ''0.61'')], Some []]) \<and>
      length series \<le> length (filter_None
          [None, Some [(''date'', ''2017-08-29''), (''ndvi'', ''0.61'')], Some []]) \<and>
      length series < length [None, Some [(''date'', ''2017-08-29''), (''ndvi'', ''0.61'')], Some []] \<and>
      length series = length (filter_None
          [None, Some [(''date'', ''2017-08-29''), (''ndvi'', ''0.61'')], Some []]))"
proof -
  have h1: "None \<in> set [None, Some [(''date'', ''2017-08-29''), (''ndvi'', ''0.61'')], Some []]"
    by simp
  have h2: "list_all (has_field ''ndvi'')
     (filter_None [None, Some [(''date'', ''2017-08-29''), (''ndvi'', ''0.61'')], Some []])"
    by (simp add: filter_None_def truthy_def has_field_def dict_contains_def)
  from ndviSeries_length [of "[None, Some [(''date'', ''2017-08-29''), (''ndvi'', ''0.61'')], Some []]"]
    h1 h2 show ?thesis by blast
qed

text \<open>
  Claim C7, as stated, makes the length of the series equal to the number of
  present results. A present result without the field \<open>ndvi\<close> is dropped by the
  guard of the comprehension: here one result is present and the series is empty.
\<close>

theorem ndviSeries_length_counterexample:
  "ndviSeries [None, Some [(''date'', ''2017-08-29'')]] = Inr ([] :: string list) \<and>
   length ([] :: string list) \<noteq> length (filter_None [None, Some [(''date'', ''2017-08-29'')]])"
  by (simp add: ndviSeries_def filter_None_def truthy_def contains_def dict_contains_def)


section \<open>Properties of the top-20 selection\<close>

lemma dict_set_fresh: "k \<notin> fst ` set d \<Longrightarrow> dict_set d k v = d @ [(k, v)]"
  by (induction d) auto

lemma dict_of_from:
  "distinct (map fst (d @ ps)) \<Longrightarrow> foldl (\<lambda>d (k, v). dict_set d k v) d ps = d @ ps"
proof (induction ps arbitrary: d)
  case Nil
  then show ?case by simp
next
  case (Cons p ps)
  obtain k v where p: "p = (k, v)" by (cases p)
  from Cons.prems p have fresh: "k \<notin> fst ` set d" by auto
  from Cons.prems p have "distinct (map fst ((d @ [(k, v)]) @ ps))" by simp
  from Cons.IH [OF this] show ?case
    by (simp add: p dict_set_fresh [OF fresh])
qed

lemma dict_of_distinct: "distinct (map fst ps) \<Longrightarrow> dict_of ps = ps"
  using dict_of_from [of "[]" ps] by (simp add: dict_of_def)

lemma sort_key_inj: "inj (\<lambda>(k :: string, v :: int). (- v, k))"
  by (auto simp: inj_on_def)

lemma sorted_items_mset:
  assumes "mset its = mset its'"
  shows "sorted_items its = sorted_items its'"
  unfolding sorted_items_def
proof (rule sort_key_inj_key_eq)
  show "mset its = mset (sort_key (\<lambda>(k, v). (- v, k)) its')"
    using assms by simp
  show "inj_on (\<lambda>(k, v). (- v, k)) (set its)"
    using sort_key_inj by (rule inj_on_subset) simp
  show "sorted (map (\<lambda>(k, v). (- v, k)) (sort_key (\<lambda>(k, v). (- v, k)) its'))"
    by (rule sorted_sort_key)
qed

lemma dict_mset:
  assumes "distinct (map fst d)" and "distinct (map fst d')" and "map_of d = map_of d'"
  shows "mset d = mset d'"
proof -
  have "set d = set d'"
    using assms by (simp add: map_of_inject_set)
  moreover have "distinct d" "distinct d'"
    using assms(1,2) by (simp_all add: distinct_map)
  ultimately show ?thesis
    by (simp add: set_eq_iff_mset_eq_distinct)
qed

lemma sorted_items_keys: "distinct (map fst d) \<Longrightarrow> distinct (map fst (sorted_items d))"
proof -
  assume d: "distinct (map fst d)"
  have "mset (map fst (sorted_items d)) = mset (map fst d)"
    by (simp add: sorted_items_def)
  then show ?thesis using d by (metis distinct_count_atmost_1 set_mset_mset)
qed

lemma top20_take:
  assumes "distinct (map fst d)"
  shows "top20 d = take 20 (sorted_items d)"
proof -
  have "distinct (take 20 (map fst (sorted_items d)))"
    using sorted_items_keys [OF assms] by (rule distinct_take)
  then have "distinct (map fst (take 20 (sorted_items d)))"
    by (simp add: take_map)
  then show ?thesis
    by (simp add: top20_def dict_of_distinct)
qed

lemma sorted_items_order:
  "sorted_wrt (\<lambda>(k1, v1) (k2, v2). v2 < v1 \<or> (v1 = v2 \<and> k1 \<le> k2)) (sorted_items its)"
proof -
  have "sorted (map (\<lambda>(k, v). (- v, k)) (sorted_items its))"
    by (simp add: sorted_items_def)
  then have "sorted_wrt (\<lambda>x y. (case x of (k, v) \<Rightarrow> (- v, k)) \<le> (case y of (k, v) \<Rightarrow> (- v, k)))
      (sorted_items its)"
    by (simp add: sorted_map)
  then show ?thesis
    by (rule sorted_wrt_mono_rel [rotated]) (auto simp: less_eq_prod_def)
qed

lemma sorted_items_abc:
  "sorted_items [(''a'', 4), (''b'', 2), (''c'', 4)] = [(''a'', 4), (''c'', 4), (''b'', 2)]"
  by (simp add: sorted_items_def less_eq_prod_def less_prod_def)

text \<open>
  Claim C5, as amended. The selection holds the entries of the mapping ordered
  by descending count, ties broken by ascending token, and keeps the first 20 of
  them; the result does not depend on the order in which the dictionary yields
  its entries. On the mapping \<open>{a: 4, b: 2, c: 4}\<close> the order is \<open>a\<close>, \<open>c\<close>, \<open>b\<close>,
  and since the mapping has no more than 20 entries all three are kept.
\<close>

theorem top20_selection:
  "mset (sorted_items all_words) = mset all_words \<and>
   sorted_wrt (\<lambda>(k1, v1) (k2, v2). v2 < v1 \<or> (v1 = v2 \<and> k1 \<le> k2)) (sorted_items all_words) \<and>
   (distinct (map fst all_words) \<longrightarrow> top20 all_words = take 20 (sorted_items all_words)) \<and>
   (distinct (map fst all_words) \<and> distinct (map fst all_words') \<and>
      map_of all_words = map_of all_words' \<longrightarrow> top20 all_words = top20 all_words') \<and>
   (distinct (map fst all_words) \<and> map_of all_words = map_of [(''a'', 4), (''b'', 2), (''c'', 4)] \<longrightarrow>
      sorted_items all_words = [(''a'', 4), (''c'', 4), (''b'', 2)] \<and>
      top20 all_words = [(''a'', 4), (''c'', 4), (''b'', 2)])"
proof (intro conjI impI)
  show "mset (sorted_items all_words) = mset all_words"
    by (simp add: sorted_items_def)
next
  show "sorted_wrt (\<lambda>(k1, v1) (k2, v2). v2 < v1 \<or> (v1 = v2 \<and> k1 \<le> k2)) (sorted_items all_words)"
    by (rule sorted_items_order)
next
  assume "distinct (map fst all_words)"
  then show "top20 all_words = take 20 (sorted_items all_words)" by (rule top20_take)
next
  assume a: "distinct (map fst all_words) \<and> distinct (map fst all_words') \<and>
      map_of all_words = map_of all_words'"
  then have "mset all_words = mset all_words'" by (intro dict_mset) simp_all
  then have "sorted_items all_words = sorted_items all_words'" by (rule sorted_items_mset)
  with a show "top20 all_words = top20 all_words'" by (simp add: top20_take)
next
  assume a: "distinct (map fst all_words) \<and> map_of all_words = map_of [(''a'', 4), (''b'', 2), (''c'', 4)]"
  have "distinct (map fst [(''a'', 4 :: int), (''b'', 2), (''c'', 4)])" by simp
  with a have "mset all_words = mset [(''a'', 4), (''b'', 2), (''c'', 4)]"
    by (intro dict_mset) simp_all
  then have "sorted_items all_words = sorted_items [(''a'', 4), (''b'', 2), (''c'', 4)]"
    by (rule sorted_items_mset)
  then show s: "sorted_items all_words = [(''a'', 4), (''c'', 4), (''b'', 2)]"
    by (simp only: sorted_items_abc)
  from a have "distinct (map fst all_words)" by (rule conjunct1)
  then have "top20 all_words = take 20 (sorted_items all_words)" by (rule top20_take)
  then show "top20 all_words = [(''a'', 4), (''c'', 4), (''b'', 2)]"
    by (simp add: s)
qed

text \<open>The statement of C5 at two other iteration orders of \<open>{a: 4, b: 2, c: 4}\<close>.\<close>

theorem top20_selection_witness:
  "distinct (map fst [(''c'', 4 :: int), (''b'', 2), (''a'', 4)]) \<and>
   distinct (map fst [(''b'', 2 :: int), (''a'', 4), (''c'', 4)]) \<and>
   map_of [(''c'', 4 :: int), (''b'', 2), (''a'', 4)] = map_of [(''b'', 2), (''a'', 4), (''c'', 4)] \<and>
   map_of [(''c'', 4 :: int), (''b'', 2), (''a'', 4)] = map_of [(''a'', 4), (''b'', 2), (''c'', 4)] \<and>
   mset (sorted_items [(''c'', 4), (''b'', 2), (''a'', 4)]) = mset [(''c'', 4), (''b'', 2), (''a'', 4)] \<and>
   sorted_wrt (\<lambda>(k1, v1) (k2, v2). v2 < v1 \<or> (v1 = v2 \<and> k1 \<le> k2))
     (sorted_items [(''c'', 4), (''b'', 2), (''a'', 4)]) \<and>
   top20 [(''c'', 4), (''b'', 2), (''a'', 4)] = take 20 (sorted_items [(''c'', 4), (''b'', 2), (''a'', 4)]) \<and>
   top20 [(''c'', 4), (''b'', 2), (''a'', 4)] = top20 [(''b'', 2), (''a'', 4), (''c'', 4)] \<and>
   sorted_items [(''c'', 4), (''b'', 2), (''a'', 4)] = [(''a'', 4), (''c'', 4), (''b'', 2)] \<and>
   top20 [(''c'', 4), (''b'', 2), (''a'', 4)] = [(''a'', 4), (''c'', 4), (''b'', 2)]"
proof -
  have h1: "distinct (map fst [(''c'', 4 :: int), (''b'', 2), (''a'', 4)])" by simp
  have h2: "distinct (map fst [(''b'', 2 :: int), (''a'', 4), (''c'', 4)])" by simp
  have h3: "map_of [(''c'', 4 :: int), (''b'', 2), (''a'', 4)] = map_of [(''b'', 2), (''a'', 4), (''c'', 4)]"
    by (auto simp: fun_eq_iff)
  have h4: "map_of [(''c'', 4 :: int), (''b'', 2), (''a'', 4)] = map_of [(''a'', 4), (''b'', 2), (''c'', 4)]"
    by (auto simp: fun_eq_iff)
  note t = top20_selection [of "[(''c'', 4), (''b'', 2), (''a'', 4)]" "[(''b'', 2), (''a'', 4), (''c'', 4)]"]
  note t1 = t [THEN conjunct1]
  note t2 = t [THEN conjunct2, THEN conjunct1]
  note t3 = t [THEN conjunct2, THEN conjunct2, THEN conjunct1, THEN mp, OF h1]
  note t4 = t [THEN conjunct2, THEN conjunct2, THEN conjunct2, THEN conjunct1, THEN mp,
      OF conjI [OF h1 conjI [OF h2 h3]]]
  note t5 = t [THEN conjunct2, THEN conjunct2, THEN conjunct2, THEN conjunct2, THEN mp,
      OF conjI [OF h1 h4]]
  show ?thesis
    by (intro conjI) (rule h1 h2 h3 h4 t1 t2 t3 t4 t5 [THEN conjunct1] t5 [THEN conjunct2])+
qed

text \<open>
  Claim C5, as stated, has the selection on \<open>{a: 4, b: 2, c: 4}\<close> return exactly the
  tokens \<open>a\<close> and \<open>c\<close>. The slice is fixed to 20 entries, so the token \<open>b\<close> is kept
  as well.
\<close>

theorem top20_selection_counterexample:
  "top20 [(''a'', 4), (''b'', 2), (''c'', 4)] = [(''a'', 4), (''c'', 4), (''b'', 2)] \<and>
   set (map fst (top20 [(''a'', 4), (''b'', 2), (''c'', 4)])) \<noteq> {''a'', ''c''}"
proof (rule conjI)
  have "distinct (map fst [(''a'', 4 :: int), (''b'', 2), (''c'', 4)])" by simp
  then have "top20 [(''a'', 4), (''b'', 2), (''c'', 4)] =
      take 20 (sorted_items [(''a'', 4), (''b'', 2), (''c'', 4)])"
    by (rule top20_take)
  also have "\<dots> = [(''a'', 4), (''c'', 4), (''b'', 2)]"
    by (simp add: sorted_items_abc)
  finally show t: "top20 [(''a'', 4), (''b'', 2), (''c'', 4)] = [(''a'', 4), (''c'', 4), (''b'', 2)]" .
  have nb: "''b'' \<notin> {''a'', ''c''}" by simp
  have mb: "''b'' \<in> set (map fst (top20 [(''a'', 4), (''b'', 2), (''c'', 4)]))"
    unfolding t by simp
  show "set (map fst (top20 [(''a'', 4), (''b'', 2), (''c'', 4)])) \<noteq> {''a'', ''c''}"
  proof
    assume e: "set (map fst (top20 [(''a'', 4), (''b'', 2), (''c'', 4)])) = {''a'', ''c''}"
    from mb have "''b'' \<in> {''a'', ''c''}" unfolding e .
    with nb show False by (rule notE)
  qed
qed

end
